theory Spec2Isabelle
  imports
    Main
    "HOL-Library.Word"
    "HOL-Library.Char_ord"
    "HOL-Library.List_Lexorder"
begin

section \<open>Data model of example-03.cpp\<close>

text \<open>
  The program runs four word-counting tasks on the threads of a pool; each task
  enters itself in a static table while it runs, the main thread prints the
  tasks found in the table, and a signal-handling thread calls \<^verbatim>\<open>pthread_cancel\<close>
  on them when a terminating signal arrives.  The embedding covers \<^verbatim>\<open>class Task\<close>,
  \<^verbatim>\<open>class TasksRegistry\<close> and \<^verbatim>\<open>sig_handle_worker_routine\<close>; the thread pool and
  the delivery of signals are the environment.  Line numbers are those of
  example-03.cpp.

  Thread identities (\<^verbatim>\<open>pthread_t\<close>) are opaque handles that the program only compares,
  prints and uses as keys of \<^verbatim>\<open>std::map\<close>; they are natural numbers here.  A
  \<^verbatim>\<open>const Task*\<close> is an address, with \<^verbatim>\<open>NULL\<close> the address 0.
\<close>

type_synonym pthread_t = nat
type_synonym task_ptr = nat

definition NULL :: task_ptr where
  "NULL = 0"

text \<open>
  \<^verbatim>\<open>class Task\<close>: \<^verbatim>\<open>_fname\<close> is a \<^verbatim>\<open>const char*\<close> (\<open>None\<close> is the null pointer),
  \<^verbatim>\<open>_line_count\<close> a \<^verbatim>\<open>std::size_t\<close> (64 bit on the Linux target of the Makefile), the
  counters are \<^verbatim>\<open>std::uint32_t\<close>.  The leading underscore of the member names is
  not an Isabelle identifier and is dropped.
\<close>

record Task =
  fname :: "string option"
  tid :: pthread_t
  start :: int
  line_count :: "64 word"
  word_counters :: "(string \<times> 32 word) list"

text \<open>What the program writes to \<^verbatim>\<open>std::cout\<close> and \<^verbatim>\<open>std::cerr\<close>, one entry per message
  (the elapsed time, a \<^verbatim>\<open>double\<close>, is left out of \<open>TaskFinished\<close>).\<close>

datatype log_entry =
    RegisterThread pthread_t
  | UnregisterThread pthread_t
  | CouldntOpenFile string pthread_t
  | TaskFinished pthread_t "64 word" "32 word"
  | PerrorSigwait
  | ReceivedSignal int
  | CancelRunningTasks
  | PerrorPthreadCancel
  | CancellingFailed pthread_t

text \<open>
  The state shared by the threads: the static table \<^verbatim>\<open>TasksRegistry::_tasks\<close>, the
  \<^verbatim>\<open>Task\<close> objects in memory, the console, the calls made to \<^verbatim>\<open>pthread_cancel\<close>
  with their return codes (the only trace the program leaves of a cancellation
  request), and the two atomics \<^verbatim>\<open>sig_num\<close> and \<^verbatim>\<open>running\<close>.  Every operation on
  the table runs between \<^verbatim>\<open>_mutex.lock()\<close> and \<^verbatim>\<open>_mutex.unlock()\<close> and is one atomic
  step of the model; the threads interleave such steps.  Every address holds a
  \<^verbatim>\<open>Task\<close>: objects are not deallocated, and reading through a pointer to a task
  that has returned yields the object as the task left it.
\<close>

record world =
  tasks :: "(pthread_t \<times> task_ptr) list"
  objs :: "task_ptr \<Rightarrow> Task"
  out :: "log_entry list"
  cancel_calls :: "(pthread_t \<times> int) list"
  sig_num :: int
  running :: bool

datatype error = AssertionFailed

subsection \<open>\<^verbatim>\<open>std::map\<close> as a list of entries in key order\<close>

text \<open>\<^verbatim>\<open>m.find(k)\<close>, \<^verbatim>\<open>m[k] = v\<close> and \<^verbatim>\<open>m.erase(k)\<close>; iteration over the map is iteration
  over the list.\<close>

fun map_assign :: "'k::linorder \<Rightarrow> 'v \<Rightarrow> ('k \<times> 'v) list \<Rightarrow> ('k \<times> 'v) list" where
  "map_assign k v [] = [(k, v)]"
| "map_assign k v (e # es) =
     (if fst e < k then e # map_assign k v es
      else if fst e = k then (k, v) # es
      else (k, v) # e # es)"

definition map_erase :: "'k \<Rightarrow> ('k \<times> 'v) list \<Rightarrow> ('k \<times> 'v) list" where
  "map_erase k es = filter (\<lambda>e. fst e \<noteq> k) es"

text \<open>\<^verbatim>\<open>m[k]\<close> read: a missing key is inserted with the value-initialised element.\<close>

definition map_index :: "'k::linorder \<Rightarrow> ('k \<times> 'v::zero) list \<Rightarrow> 'v \<times> ('k \<times> 'v) list" where
  "map_index k es =
     (case map_of es k of
        Some v \<Rightarrow> (v, es)
      | None \<Rightarrow> (0, map_assign k 0 es))"

definition key_ordered :: "('k::linorder \<times> 'v) list \<Rightarrow> bool" where
  "key_ordered es = sorted_wrt (<) (map fst es)"

section \<open>TasksRegistry\<close>

text \<open>
  The constructor (lines 288-294) is the registry's register operation and the
  destructor (lines 296-302) its unregister operation; \<open>self\<close> is the value of
  \<^verbatim>\<open>pthread_self()\<close>.  The constructor has no check, assertion or throw: its only
  outcome is the normal one.
\<close>

definition TasksRegistry_ctor :: "pthread_t \<Rightarrow> task_ptr \<Rightarrow> world \<Rightarrow> error + world" where
  "TasksRegistry_ctor self task w =
     Inr (w\<lparr>out := out w @ [RegisterThread self],
            tasks := map_assign self task (tasks w)\<rparr>)"

definition TasksRegistry_dtor :: "pthread_t \<Rightarrow> world \<Rightarrow> world" where
  "TasksRegistry_dtor self w =
     w\<lparr>out := out w @ [UnregisterThread self],
       tasks := map_erase self (tasks w)\<rparr>"

definition GetRunningTasks :: "world \<Rightarrow> task_ptr list" where
  "GetRunningTasks w = map snd (filter (\<lambda>p. snd p \<noteq> NULL) (tasks w))"

section \<open>Input streams\<close>

text \<open>
  An \<^verbatim>\<open>std::ifstream\<close> or \<^verbatim>\<open>std::stringstream\<close> being read: the characters not yet
  extracted and the state bits \<^verbatim>\<open>eofbit\<close> and \<^verbatim>\<open>failbit\<close>.  A file is its contents, a
  finite string, and reading it never reports a device error (\<^verbatim>\<open>badbit\<close> is never
  set); the file system maps a path to the contents of the file that can be opened
  there.
\<close>

record istream =
  buf :: string
  eofbit :: bool
  failbit :: bool

definition good :: "istream \<Rightarrow> bool" where
  "good s = (\<not> eofbit s \<and> \<not> failbit s)"

definition ifstream_open :: "(string \<rightharpoonup> string) \<Rightarrow> string \<Rightarrow> istream" where
  "ifstream_open fs path =
     (case fs path of
        None \<Rightarrow> \<lparr>buf = [], eofbit = False, failbit = True\<rparr>
      | Some cs \<Rightarrow> \<lparr>buf = cs, eofbit = False, failbit = False\<rparr>)"

definition stringstream :: "string \<Rightarrow> istream" where
  "stringstream str = \<lparr>buf = str, eofbit = False, failbit = False\<rparr>"

text \<open>
  \<^verbatim>\<open>std::getline(is, str, delim)\<close>.  On a stream that is not good the sentry sets
  \<^verbatim>\<open>failbit\<close> and \<open>str\<close> is left as it was.  Otherwise \<open>str\<close> is erased and
  characters are extracted up to the delimiter, which is extracted and dropped, or
  up to the end of the stream, which sets \<^verbatim>\<open>eofbit\<close>; when nothing at all was
  extracted \<^verbatim>\<open>failbit\<close> is set too.
\<close>

definition getline :: "istream \<Rightarrow> string \<Rightarrow> char \<Rightarrow> istream \<times> string" where
  "getline s str delim =
     (if \<not> good s then (s\<lparr>failbit := True\<rparr>, str)
      else
        let taken = takeWhile (\<lambda>c. c \<noteq> delim) (buf s);
            rest = dropWhile (\<lambda>c. c \<noteq> delim) (buf s)
        in if rest = []
           then (s\<lparr>buf := [], eofbit := True, failbit := (taken = [])\<rparr>, taken)
           else (s\<lparr>buf := tl rest\<rparr>, taken))"

lemma getline_not_good:
  "\<not> good s \<Longrightarrow> getline s str d = (s\<lparr>failbit := True\<rparr>, str)"
  by (simp add: getline_def)

lemma getline_to_end:
  "good s \<Longrightarrow> d \<notin> set (buf s) \<Longrightarrow>
   getline s str d = (s\<lparr>buf := [], eofbit := True, failbit := (buf s = [])\<rparr>, buf s)"
proof -
  assume g: "good s" and d: "d \<notin> set (buf s)"
  from d have tw: "takeWhile (\<lambda>c. c \<noteq> d) (buf s) = buf s"
    by (intro takeWhile_eq_all_conv [THEN iffD2]) auto
  from d have dw: "dropWhile (\<lambda>c. c \<noteq> d) (buf s) = []"
    by (intro dropWhile_eq_Nil_conv [THEN iffD2]) auto
  show ?thesis
    unfolding getline_def Let_def tw dw using g by simp
qed

lemma getline_to_delim:
  "good s \<Longrightarrow> buf s = pre @ d # post \<Longrightarrow> d \<notin> set pre \<Longrightarrow>
   getline s str d = (s\<lparr>buf := post\<rparr>, pre)"
proof -
  assume g: "good s" and b: "buf s = pre @ d # post" and d: "d \<notin> set pre"
  from d have pre: "\<And>x. x \<in> set pre \<Longrightarrow> x \<noteq> d"
    by auto
  have tw: "takeWhile (\<lambda>c. c \<noteq> d) (buf s) = pre"
    unfolding b using pre by (simp add: takeWhile_append2)
  have dw: "dropWhile (\<lambda>c. c \<noteq> d) (buf s) = d # post"
    unfolding b using pre by (simp add: dropWhile_append2)
  show ?thesis
    unfolding getline_def Let_def tw dw using g by simp
qed

lemma getline_consumes:
  "getline s str d = (s', str') \<Longrightarrow> \<not> failbit s' \<Longrightarrow> length (buf s') < length (buf s)"
proof -
  assume g: "getline s str d = (s', str')" and nf: "\<not> failbit s'"
  show ?thesis
  proof (cases "good s")
    case False
    with g nf show ?thesis by (auto simp: getline_not_good)
  next
    case True
    show ?thesis
    proof (cases "d \<in> set (buf s)")
      case False
      with g nf True show ?thesis by (auto simp: getline_to_end)
    next
      case True
      then obtain pre post where "buf s = pre @ d # post" "d \<notin> set pre"
        by (auto dest: split_list_first)
      with g \<open>good s\<close> show ?thesis by (auto simp: getline_to_delim)
    qed
  qed
qed

section \<open>Task\<close>

text \<open>
  The constructor (lines 228-231) initialises \<^verbatim>\<open>_fname\<close> only; the map is
  default-constructed empty and the scalar members keep whatever the storage held,
  which is the argument \<open>junk\<close>.
\<close>

definition Task_ctor :: "string option \<Rightarrow> Task \<Rightarrow> Task" where
  "Task_ctor name junk = junk\<lparr>fname := name, word_counters := []\<rparr>"

text \<open>The lambda \<^verbatim>\<open>count_word\<close> (lines 251-254); \<open>n + 1\<close> wraps at \<open>2 ^ 32\<close>.\<close>

definition count_word :: "string \<Rightarrow> Task \<Rightarrow> Task" where
  "count_word w t =
     (case map_index w (word_counters t) of
        (n, m) \<Rightarrow> t\<lparr>word_counters := map_assign w (n + 1) m\<rparr>)"

text \<open>The lambda \<^verbatim>\<open>split_line_and_count_words\<close> (lines 256-263) and its loop.\<close>

function word_loop :: "istream \<Rightarrow> string \<Rightarrow> Task \<Rightarrow> Task" where
  "word_loop ss word t =
     (case getline ss word (CHR '' '') of
        (ss', word') \<Rightarrow>
          if failbit ss' then t
          else word_loop ss' word' (count_word word' t))"
  by pat_completeness auto
termination
  by (relation "measure (\<lambda>(ss, word, t). length (buf ss))")
     (auto dest: getline_consumes [OF sym])

declare word_loop.simps [simp del]

definition split_line_and_count_words :: "string \<Rightarrow> Task \<Rightarrow> Task" where
  "split_line_and_count_words line t = word_loop (stringstream line) [] t"

text \<open>Lines 272-273, what the loop does with a line that was read and is not empty.\<close>

definition process_line :: "string \<Rightarrow> Task \<Rightarrow> Task" where
  "process_line l t = split_line_and_count_words l (t\<lparr>line_count := line_count t + 1\<rparr>)"

text \<open>
  The loop of lines 268-274.  It has no exit but \<^verbatim>\<open>in_file.eof()\<close>, so on a stream
  with \<^verbatim>\<open>failbit\<close> set and \<^verbatim>\<open>eofbit\<close> clear it would not return: \<open>None\<close> is the loop
  that runs forever.
\<close>

partial_function (option) read_loop :: "istream \<Rightarrow> string \<Rightarrow> Task \<Rightarrow> (istream \<times> string \<times> Task) option" where
  "read_loop in_file line t =
     (if eofbit in_file then Some (in_file, line, t)
      else
        case getline in_file line (CHR 0x0A) of
          (in_file', line') \<Rightarrow>
            if failbit in_file' \<or> line' = [] then read_loop in_file' line' t
            else read_loop in_file' line' (process_line line' t))"

declare read_loop.simps [code]

text \<open>Line 241, \<^verbatim>\<open>_tid = pthread_self()\<close>, on the object at address \<open>this\<close>.\<close>

definition assign_tid :: "pthread_t \<Rightarrow> task_ptr \<Rightarrow> world \<Rightarrow> world" where
  "assign_tid self this w = w\<lparr>objs := (objs w)(this := (objs w this)\<lparr>tid := self\<rparr>)\<rparr>"

text \<open>Lines 276-279: the sum of all counters, in 32-bit arithmetic.\<close>

definition words_total :: "Task \<Rightarrow> 32 word" where
  "words_total t = fold (\<lambda>p total. total + snd p) (word_counters t) 0"

text \<open>
  Lines 241-284 of \<^verbatim>\<open>Task::operator()\<close>, everything after the declaration of
  \<^verbatim>\<open>registry_entry\<close>; \<open>now\<close> is what \<^verbatim>\<open>clock()\<close> returns.  A failed \<^verbatim>\<open>assert\<close> aborts the
  process (the Makefile does not define \<^verbatim>\<open>NDEBUG\<close>).
\<close>

definition Task_body ::
  "(string \<rightharpoonup> string) \<Rightarrow> int \<Rightarrow> pthread_t \<Rightarrow> task_ptr \<Rightarrow> world \<Rightarrow> (error + world) option" where
  "Task_body fs now self this w =
     (let w1 = assign_tid self this w in
      case fname (objs w1 this) of
        None \<Rightarrow> Some (Inl AssertionFailed)
      | Some path \<Rightarrow>
          let in_file = ifstream_open fs path in
          if failbit in_file
          then Some (Inr (w1\<lparr>out := out w1 @ [CouldntOpenFile path self]\<rparr>))
          else
            case read_loop in_file [] ((objs w1 this)\<lparr>line_count := 0, start := now\<rparr>) of
              None \<Rightarrow> None
            | Some (in_file', line, t) \<Rightarrow>
                Some (Inr (w1\<lparr>objs := (objs w1)(this := t),
                              out := out w1 @ [TaskFinished (tid t) (line_count t) (words_total t)]\<rparr>)))"

text \<open>
  \<^verbatim>\<open>Task::operator()\<close> (lines 237-284): \<^verbatim>\<open>registry_entry\<close> is constructed first, the
  body runs, and the destructor of \<^verbatim>\<open>registry_entry\<close> runs on either \<^verbatim>\<open>return\<close>.  This is
  the call as the code of the task runs it, on a thread that the threads library
  does not cancel meanwhile; \<open>cancellable_call\<close> below adds the cancellation.
\<close>

definition Task_call ::
  "(string \<rightharpoonup> string) \<Rightarrow> int \<Rightarrow> pthread_t \<Rightarrow> task_ptr \<Rightarrow> world \<Rightarrow> (error + world) option" where
  "Task_call fs now self this w =
     (case TasksRegistry_ctor self this w of
        Inl e \<Rightarrow> Some (Inl e)
      | Inr w1 \<Rightarrow>
          (case Task_body fs now self this w1 of
             None \<Rightarrow> None
           | Some (Inl e) \<Rightarrow> Some (Inl e)
           | Some (Inr w2) \<Rightarrow> Some (Inr (TasksRegistry_dtor self w2))))"

section \<open>The signal-handling thread\<close>

text \<open>Signal numbers of \<^verbatim>\<open><csignal>\<close> on Linux.\<close>

definition SIGINT :: int where "SIGINT = 2"
definition SIGABRT :: int where "SIGABRT = 6"
definition SIGTERM :: int where "SIGTERM = 15"

text \<open>
  The \<^verbatim>\<open>for\<close> loop of lines 102-108 over a list of task pointers.  \<^verbatim>\<open>pthread_cancel\<close>
  belongs to the threads library: \<open>pthread_cancel th\<close> is its return code for thread
  \<open>th\<close>, and each call is recorded in \<open>cancel_calls\<close>.
\<close>

fun cancel_walk :: "(pthread_t \<Rightarrow> int) \<Rightarrow> task_ptr list \<Rightarrow> world \<Rightarrow> world" where
  "cancel_walk pthread_cancel [] w = w"
| "cancel_walk pthread_cancel (task # rest) w =
     (let th = tid (objs w task);
          rc = pthread_cancel th;
          w1 = w\<lparr>cancel_calls := cancel_calls w @ [(th, rc)]\<rparr>
      in cancel_walk pthread_cancel rest
           (if rc \<noteq> 0
            then w1\<lparr>out := out w1 @ [PerrorPthreadCancel, CancellingFailed th]\<rparr>
            else w1))"

text \<open>Lines 99-108: the message, the snapshot, the walk.\<close>

definition cancel_running_tasks :: "(pthread_t \<Rightarrow> int) \<Rightarrow> world \<Rightarrow> world" where
  "cancel_running_tasks pthread_cancel w =
     cancel_walk pthread_cancel (GetRunningTasks w) (w\<lparr>out := out w @ [CancelRunningTasks]\<rparr>)"

text \<open>
  The \<^verbatim>\<open>while\<close> loop of \<^verbatim>\<open>sig_handle_worker_routine\<close> (lines 88-111).  Each element of
  \<open>events\<close> is one return of \<^verbatim>\<open>sigwait\<close>: its return value and the signal number it
  stored, if it stored one.  With no event left the thread stays blocked in
  \<^verbatim>\<open>sigwait\<close>: \<open>None\<close>.
\<close>

fun sig_handle_loop ::
  "(pthread_t \<Rightarrow> int) \<Rightarrow> (int \<times> int option) list \<Rightarrow> int \<Rightarrow> bool \<Rightarrow> world \<Rightarrow> world option" where
  "sig_handle_loop pthread_cancel [] sig emergency w =
     (if running w then None else Some w)"
| "sig_handle_loop pthread_cancel ((ret, stored) # events) sig emergency w =
     (if \<not> running w then Some w
      else
        let sig' = (case stored of None \<Rightarrow> sig | Some n \<Rightarrow> n);
            emergency' = (emergency \<or> ret < 0);
            w1 = (if ret < 0 then w\<lparr>out := out w @ [PerrorSigwait]\<rparr>
                  else w\<lparr>sig_num := sig', out := out w @ [ReceivedSignal sig']\<rparr>)
        in if emergency' \<or> sig' = SIGINT \<or> sig' = SIGABRT \<or> sig' = SIGTERM
           then Some (cancel_running_tasks pthread_cancel w1)
           else sig_handle_loop pthread_cancel events sig' emergency' w1)"

definition sig_handle_worker_routine ::
  "(pthread_t \<Rightarrow> int) \<Rightarrow> (int \<times> int option) list \<Rightarrow> world \<Rightarrow> world option" where
  "sig_handle_worker_routine pthread_cancel events w =
     map_option (\<lambda>w'. w'\<lparr>running := False\<rparr>) (sig_handle_loop pthread_cancel events 0 False w)"

text \<open>A thread has a cancellation request once \<^verbatim>\<open>pthread_cancel\<close> returned 0 for it.\<close>

definition cancel_requested :: "world \<Rightarrow> pthread_t \<Rightarrow> bool" where
  "cancel_requested w th = ((th, 0) \<in> set (cancel_calls w))"

section \<open>Cancellation by the threads library\<close>

text \<open>
  \<^verbatim>\<open>pthread_cancel\<close> only files a request.  The program never changes the
  cancelability of its threads, which start with cancellation enabled and
  deferred: the threads library unwinds a thread that has a request when the thread
  reaches a cancellation point, a library call that may block, and the unwound call
  does not return.  In \<^verbatim>\<open>Task::operator()\<close> such calls are behind the message of the
  \<^verbatim>\<open>TasksRegistry\<close> constructor (line 291), the opening of the file (line 243), the
  message about a file that cannot be opened (lines 246-247), each
  \<^verbatim>\<open>std::getline\<close> on the file (line 270, numbered from 0), the completion summary
  (lines 280-283), the closing of the file by the destructor of \<^verbatim>\<open>in_file\<close>, and the
  message of the \<^verbatim>\<open>TasksRegistry\<close> destructor (line 299).  Whether the library unwinds
  the thread at such a call is the parameter \<open>unwinds\<close>: it depends on the
  requests filed so far and on whether the call reaches the operating system (a
  \<^verbatim>\<open>std::getline\<close> served from the buffer of the stream does not).
\<close>

datatype cancel_point =
    RegisterMessage
  | OpenFile
  | OpenFailedMessage
  | ReadLine nat
  | FinishedMessage
  | CloseFile
  | UnregisterMessage

datatype outcome = Unwound cancel_point | Aborted error | Returned world

text \<open>The loop of lines 268-274 on a thread that may be unwound in \<^verbatim>\<open>std::getline\<close>.\<close>

partial_function (option) read_loop_cancellable ::
  "(cancel_point \<Rightarrow> bool) \<Rightarrow> nat \<Rightarrow> istream \<Rightarrow> string \<Rightarrow> Task \<Rightarrow>
   (cancel_point + istream \<times> string \<times> Task) option" where
  "read_loop_cancellable unwinds n in_file line t =
     (if eofbit in_file then Some (Inr (in_file, line, t))
      else if unwinds (ReadLine n) then Some (Inl (ReadLine n))
      else
        case getline in_file line (CHR 0x0A) of
          (in_file', line') \<Rightarrow>
            if failbit in_file' \<or> line' = []
            then read_loop_cancellable unwinds (Suc n) in_file' line' t
            else read_loop_cancellable unwinds (Suc n) in_file' line' (process_line line' t))"

declare read_loop_cancellable.simps [code]

text \<open>\<^verbatim>\<open>Task::operator()\<close> on a thread that may be unwound at its cancellation points.\<close>

definition cancellable_call ::
  "(cancel_point \<Rightarrow> bool) \<Rightarrow> (string \<rightharpoonup> string) \<Rightarrow> int \<Rightarrow> pthread_t \<Rightarrow> task_ptr \<Rightarrow> world \<Rightarrow>
   outcome option" where
  "cancellable_call unwinds fs now self this w =
     (if unwinds RegisterMessage then Some (Unwound RegisterMessage)
      else
        case TasksRegistry_ctor self this w of
          Inl e \<Rightarrow> Some (Aborted e)
        | Inr w0 \<Rightarrow>
            let w1 = assign_tid self this w0 in
            case fname (objs w1 this) of
              None \<Rightarrow> Some (Aborted AssertionFailed)
            | Some path \<Rightarrow>
                if unwinds OpenFile then Some (Unwound OpenFile)
                else
                  let in_file = ifstream_open fs path in
                  if failbit in_file
                  then
                    if unwinds OpenFailedMessage then Some (Unwound OpenFailedMessage)
                    else if unwinds UnregisterMessage then Some (Unwound UnregisterMessage)
                    else Some (Returned (TasksRegistry_dtor self
                           (w1\<lparr>out := out w1 @ [CouldntOpenFile path self]\<rparr>)))
                  else
                    case read_loop_cancellable unwinds 0 in_file []
                           ((objs w1 this)\<lparr>line_count := 0, start := now\<rparr>) of
                      None \<Rightarrow> None
                    | Some (Inl pt) \<Rightarrow> Some (Unwound pt)
                    | Some (Inr (in_file', line, t)) \<Rightarrow>
                        if unwinds FinishedMessage then Some (Unwound FinishedMessage)
                        else if unwinds CloseFile then Some (Unwound CloseFile)
                        else if unwinds UnregisterMessage then Some (Unwound UnregisterMessage)
                        else Some (Returned (TasksRegistry_dtor self
                               (w1\<lparr>objs := (objs w1)(this := t),
                                   out := out w1 @
                                     [TaskFinished (tid t) (line_count t) (words_total t)]\<rparr>))))"

text \<open>
  Three behaviours of the library: a thread is unwound at the first cancellation
  point it reaches once it has a request (the default, deferred cancellation); the
  request arrives just before the thread reaches one given cancellation point; the
  thread is never unwound.
\<close>

definition deferred :: "world \<Rightarrow> pthread_t \<Rightarrow> cancel_point \<Rightarrow> bool" where
  "deferred w th pt = cancel_requested w th"

definition request_arrives_before :: "cancel_point \<Rightarrow> cancel_point \<Rightarrow> bool" where
  "request_arrives_before p pt = (pt = p)"

definition never_unwinds :: "cancel_point \<Rightarrow> bool" where
  "never_unwinds pt = False"

section \<open>Reference definitions for the claims\<close>

text \<open>
  The pieces of a string between the occurrences of a delimiter: \<open>n\<close> delimiters give
  \<open>n + 1\<close> pieces, which may be empty.
\<close>

fun split_at :: "char \<Rightarrow> string \<Rightarrow> string list" where
  "split_at d [] = [[]]"
| "split_at d (c # cs) =
     (if c = d then [] # split_at d cs
      else (c # hd (split_at d cs)) # tl (split_at d cs))"

text \<open>The non-empty lines of a file.\<close>

definition lines_of :: "string \<Rightarrow> string list" where
  "lines_of content = filter (\<lambda>l. l \<noteq> []) (split_at (CHR 0x0A) content)"

text \<open>
  The tokenizer the specification names: a line is tokenized on whitespace (the
  characters of \<^verbatim>\<open>isspace\<close>), a word being a maximal run of other characters.
\<close>

definition is_space :: "char \<Rightarrow> bool" where
  "is_space c = (c \<in> {CHR '' '', CHR 0x09, CHR 0x0A, CHR 0x0B, CHR 0x0C, CHR 0x0D})"

fun tokens_from :: "string \<Rightarrow> string \<Rightarrow> string list" where
  "tokens_from cur [] = (if cur = [] then [] else [rev cur])"
| "tokens_from cur (c # cs) =
     (if is_space c
      then (if cur = [] then tokens_from [] cs else rev cur # tokens_from [] cs)
      else tokens_from (c # cur) cs)"

definition whitespace_tokens :: "string \<Rightarrow> string list" where
  "whitespace_tokens line = tokens_from [] line"

text \<open>
  The tokenizer of the amended claim: a line is cut at every space character and at
  nothing else; a piece between two adjacent spaces or before a leading space is an
  empty word, and an empty piece after the last space is no word.
\<close>

definition words_of :: "string \<Rightarrow> string list" where
  "words_of line =
     (let ps = split_at (CHR '' '') line in if last ps = [] then butlast ps else ps)"

text \<open>
  The single-threaded reference: for each non-empty line, tokenize it and increment
  the counter of each word by one.  The counters are those of the program,
  \<^verbatim>\<open>std::uint32_t\<close>.
\<close>

definition increment_counter :: "string \<Rightarrow> (string \<rightharpoonup> 32 word) \<Rightarrow> (string \<rightharpoonup> 32 word)" where
  "increment_counter word m = m(word \<mapsto> (case m word of None \<Rightarrow> 0 | Some n \<Rightarrow> n) + 1)"

definition reference_counts :: "(string \<Rightarrow> string list) \<Rightarrow> string \<Rightarrow> (string \<rightharpoonup> 32 word)" where
  "reference_counts tokenize content =
     fold increment_counter (concat (map tokenize (lines_of content))) Map.empty"

text \<open>
  Sequences of registry operations as the threads perform them, one atomic
  operation after the other, and the tasks that are between their register and
  their unregister at the end of such a sequence.  In \<open>scoped held ops\<close> no thread
  registers while it holds an entry (\<open>held\<close> are the threads holding one at the
  start): that is what the scoped \<^verbatim>\<open>registry_entry\<close> of \<^verbatim>\<open>Task::operator()\<close> gives.
\<close>

datatype registry_op = Register pthread_t task_ptr | Unregister pthread_t

fun run_ops :: "registry_op list \<Rightarrow> world \<Rightarrow> error + world" where
  "run_ops [] w = Inr w"
| "run_ops (Register th p # ops) w =
     (case TasksRegistry_ctor th p w of
        Inl e \<Rightarrow> Inl e
      | Inr w' \<Rightarrow> run_ops ops w')"
| "run_ops (Unregister th # ops) w = run_ops ops (TasksRegistry_dtor th w)"

fun registered :: "registry_op list \<Rightarrow> task_ptr \<Rightarrow> bool" where
  "registered [] p = False"
| "registered (Register th q # ops) p =
     ((q = p \<and> Unregister th \<notin> set ops) \<or> registered ops p)"
| "registered (Unregister th # ops) p = registered ops p"

fun scoped :: "pthread_t set \<Rightarrow> registry_op list \<Rightarrow> bool" where
  "scoped held [] = True"
| "scoped held (Register th q # ops) = (th \<notin> held \<and> scoped (insert th held) ops)"
| "scoped held (Unregister th # ops) = scoped (held - {th}) ops"

text \<open>
  A caller of \<open>GetRunningTasks\<close> keeps the returned list in a local variable (lines
  101 and 184) while other threads go on to register and unregister: the list the
  caller holds and the state after the operations \<open>later\<close>.
\<close>

definition snapshot_then :: "registry_op list \<Rightarrow> world \<Rightarrow> error + task_ptr list \<times> world" where
  "snapshot_then later w =
     (let tasks_list = GetRunningTasks w in
      case run_ops later w of
        Inl e \<Rightarrow> Inl e
      | Inr w' \<Rightarrow> Inr (tasks_list, w'))"

text \<open>The \<^verbatim>\<open>Task\<close> object at an address once a call of \<^verbatim>\<open>operator()\<close> has returned.\<close>

definition task_after :: "task_ptr \<Rightarrow> (error + world) option \<Rightarrow> Task option" where
  "task_after this r = (case r of Some (Inr w) \<Rightarrow> Some (objs w this) | _ \<Rightarrow> None)"

text \<open>
  A concrete state for the examples: the registry is empty and every address holds
  a task constructed on the path \<open>''f''\<close>.
\<close>

definition example_task :: Task where
  "example_task =
     Task_ctor (Some ''f'')
       \<lparr>fname = None, tid = 0, start = 0, line_count = 5, word_counters = []\<rparr>"

definition example_world :: world where
  "example_world =
     \<lparr>tasks = [], objs = (\<lambda>p. example_task), out = [], cancel_calls = [],
      sig_num = 0, running = True\<rparr>"

text \<open>Two behaviours of \<^verbatim>\<open>pthread_cancel\<close> for the examples: it always returns 0, or it
  returns \<^verbatim>\<open>ESRCH\<close> for one thread and 0 for the others.\<close>

definition always_delivered :: "pthread_t \<Rightarrow> int" where
  "always_delivered th = 0"

definition fails_for :: "pthread_t \<Rightarrow> pthread_t \<Rightarrow> int" where
  "fails_for bad th = (if th = bad then 3 else 0)"

text \<open>Three tasks running on three threads, and a file of two lines.\<close>

definition three_running :: world where
  "three_running =
     example_world\<lparr>tasks := [(1, 7), (2, 8), (3, 9)],
       objs := (objs example_world)
         (7 := example_task\<lparr>tid := 1\<rparr>, 8 := example_task\<lparr>tid := 2\<rparr>, 9 := example_task\<lparr>tid := 3\<rparr>)\<rparr>"

definition two_lines :: string where
  "two_lines = [CHR ''a'', CHR 0x0A, CHR ''b'', CHR 0x0A]"

text \<open>
  A pool thread that runs two tasks one after the other: thread 1 has run the task
  at address 7 on a file of two lines, from register to unregister, and is now
  running the task at address 8, registered and with its \<^verbatim>\<open>_tid\<close> assigned.
\<close>

definition pool_thread_reused :: world where
  "pool_thread_reused =
     assign_tid 1 8 (projr (TasksRegistry_ctor 1 8
       (projr (the (Task_call [''f'' \<mapsto> two_lines] 0 1 7 example_world)))))"

section \<open>Container lemmas\<close>

lemma map_of_map_assign: "map_of (map_assign k v es) = (map_of es)(k \<mapsto> v)"
  by (induction es) (auto simp: fun_upd_twist)

lemma map_of_map_erase: "map_of (map_erase k es) = (map_of es)(k := None)"
  by (induction es) (auto simp: map_erase_def)

lemma set_map_erase: "set (map_erase k es) = {e \<in> set es. fst e \<noteq> k}"
  by (auto simp: map_erase_def)

lemma entry_map_assign: "(k, v) \<in> set (map_assign k v es)"
  by (induction es) auto

lemma keys_map_assign: "fst ` set (map_assign k v es) = insert k (fst ` set es)"
  by (induction es) auto

lemma key_ordered_Cons:
  "key_ordered (e # es) \<longleftrightarrow> (\<forall>x \<in> set es. fst e < fst x) \<and> key_ordered es"
  by (auto simp: key_ordered_def)

lemma key_ordered_map_assign: "key_ordered es \<Longrightarrow> key_ordered (map_assign k v es)"
proof (induction es)
  case Nil
  then show ?case by (simp add: key_ordered_def)
next
  case (Cons e es)
  have keys: "\<And>x. x \<in> set (map_assign k v es) \<Longrightarrow> fst x = k \<or> fst x \<in> fst ` set es"
    using keys_map_assign [of k v es] by (metis image_eqI insertE)
  show ?case
  proof (cases "fst e < k")
    case True
    with Cons keys show ?thesis
      by (fastforce simp: key_ordered_Cons)
  next
    case False
    with Cons.prems show ?thesis
      by (cases "fst e = k") (auto simp: key_ordered_Cons)
  qed
qed

lemma key_ordered_map_erase: "key_ordered es \<Longrightarrow> key_ordered (map_erase k es)"
  by (induction es) (auto simp: key_ordered_Cons map_erase_def)

lemma set_map_assign:
  "key_ordered es \<Longrightarrow> set (map_assign k v es) = insert (k, v) {e \<in> set es. fst e \<noteq> k}"
proof (induction es)
  case Nil
  then show ?case by simp
next
  case (Cons e es)
  then have rest: "key_ordered es" and low: "\<forall>x \<in> set es. fst e < fst x"
    by (simp_all add: key_ordered_Cons)
  show ?case
  proof (cases "fst e < k")
    case True
    with Cons.IH [OF rest] show ?thesis by auto
  next
    case False
    with low have "\<forall>x \<in> set es. fst x \<noteq> k" by auto
    with False show ?thesis by (cases e) auto
  qed
qed

section \<open>Splitting a string\<close>

lemma split_at_not_Nil: "split_at d cs \<noteq> []"
  by (induction cs) auto

lemma split_at_no_delim: "d \<notin> set cs \<Longrightarrow> split_at d cs = [cs]"
  by (induction cs) auto

lemma split_at_delim: "d \<notin> set pre \<Longrightarrow> split_at d (pre @ d # post) = pre # split_at d post"
  by (induction pre) auto

lemma words_of_no_space:
  "CHR '' '' \<notin> set l \<Longrightarrow> words_of l = (if l = [] then [] else [l])"
  by (simp add: words_of_def split_at_no_delim)

lemma words_of_space:
  "CHR '' '' \<notin> set pre \<Longrightarrow> words_of (pre @ CHR '' '' # post) = pre # words_of post"
  by (simp add: words_of_def split_at_delim split_at_not_Nil Let_def)

lemma lines_of_Nil: "lines_of [] = []"
  by (simp add: lines_of_def)

lemma lines_of_no_newline:
  "CHR 0x0A \<notin> set cs \<Longrightarrow> lines_of cs = (if cs = [] then [] else [cs])"
  by (simp add: lines_of_def split_at_no_delim)

lemma lines_of_newline:
  "CHR 0x0A \<notin> set pre \<Longrightarrow>
   lines_of (pre @ CHR 0x0A # post) = (if pre = [] then lines_of post else pre # lines_of post)"
  by (simp add: lines_of_def split_at_delim)

section \<open>The two loops of the task\<close>

lemma word_loop_not_good: "\<not> good ss \<Longrightarrow> word_loop ss word t = t"
  by (subst word_loop.simps) (simp add: getline_not_good)

lemma word_loop_good:
  "good ss \<Longrightarrow> word_loop ss word t = fold count_word (words_of (buf ss)) t"
proof (induction "length (buf ss)" arbitrary: ss word t rule: less_induct)
  case less
  show ?case
  proof (cases "CHR '' '' \<in> set (buf ss)")
    case False
    have ng: "\<not> good (ss\<lparr>buf := [], eofbit := True, failbit := False\<rparr>)"
      by (simp add: good_def)
    from False less.prems show ?thesis
      by (subst word_loop.simps)
         (simp add: getline_to_end words_of_no_space word_loop_not_good [OF ng])
  next
    case True
    then obtain pre post where b: "buf ss = pre @ CHR '' '' # post" and p: "CHR '' '' \<notin> set pre"
      by (auto dest: split_list_first)
    have g: "good (ss\<lparr>buf := post\<rparr>)"
      using less.prems by (simp add: good_def)
    have "word_loop (ss\<lparr>buf := post\<rparr>) pre (count_word pre t)
          = fold count_word (words_of (buf (ss\<lparr>buf := post\<rparr>))) (count_word pre t)"
      by (rule less.hyps) (simp_all add: b g)
    with less.prems g show ?thesis
      by (subst word_loop.simps)
         (simp add: getline_to_delim [OF less.prems b p] b words_of_space [OF p] good_def)
  qed
qed

lemma split_line_and_count_words_eq:
  "split_line_and_count_words l t = fold count_word (words_of l) t"
  by (simp add: split_line_and_count_words_def word_loop_good [unfolded good_def] stringstream_def)

lemma read_loop_at_eof: "eofbit s \<Longrightarrow> read_loop s line t = Some (s, line, t)"
  by (subst read_loop.simps) simp

lemma read_loop_good:
  "good s \<Longrightarrow>
   \<exists>s' line'. read_loop s line t = Some (s', line', fold process_line (lines_of (buf s)) t)"
proof (induction "length (buf s)" arbitrary: s line t rule: less_induct)
  case less
  from less.prems have ne: "\<not> eofbit s" and nf: "\<not> failbit s"
    by (simp_all add: good_def)
  show ?case
  proof (cases "CHR 0x0A \<in> set (buf s)")
    case False
    with less.prems ne show ?thesis
      by (subst read_loop.simps)
         (simp add: getline_to_end lines_of_no_newline read_loop_at_eof process_line_def)
  next
    case True
    then obtain pre post where b: "buf s = pre @ CHR 0x0A # post" and p: "CHR 0x0A \<notin> set pre"
      by (auto dest: split_list_first)
    have g: "good (s\<lparr>buf := post\<rparr>)"
      using less.prems by (simp add: good_def)
    have len: "length (buf (s\<lparr>buf := post\<rparr>)) < length (buf s)"
      by (simp add: b)
    note IH = less.hyps [OF len g]
    show ?thesis
    proof (cases "pre = []")
      case True
      with IH [of pre t] ne nf show ?thesis
        by (subst read_loop.simps)
           (simp add: getline_to_delim [OF less.prems b p] b
              lines_of_newline [of "[]", simplified])
    next
      case False
      with IH [of pre "process_line pre t"] ne nf show ?thesis
        by (subst read_loop.simps)
           (simp add: getline_to_delim [OF less.prems b p] b lines_of_newline [OF p]
              process_line_def)
    qed
  qed
qed

lemma read_loop_exit: "read_loop s line t = Some r \<Longrightarrow> eofbit (fst r)"
proof (induction rule: read_loop.raw_induct [rotated 1, consumes 1])
  case (1 read_loop' in_file line t r)
  then show ?case
    by (auto split: if_splits prod.splits)
qed

lemma read_loop_stuck: "failbit s \<Longrightarrow> \<not> eofbit s \<Longrightarrow> read_loop s line t = None"
proof (rule ccontr)
  assume f: "failbit s" and e: "\<not> eofbit s" and "read_loop s line t \<noteq> None"
  then obtain r where r: "read_loop s line t = Some r" by auto
  have "read_loop s line t = Some r \<Longrightarrow> \<not> (failbit s \<and> \<not> eofbit s)"
  proof (induction rule: read_loop.raw_induct [rotated 1, consumes 1])
    case (1 read_loop' in_file line t r)
    show ?case
    proof
      assume a: "failbit in_file \<and> \<not> eofbit in_file"
      then have ng: "\<not> good in_file" by (simp add: good_def)
      from 1(2) a have "read_loop' (in_file\<lparr>failbit := True\<rparr>) line t = Some r"
        by (simp add: getline_not_good [OF ng])
      from 1(1) [OF this] a show False by simp
    qed
  qed
  with r f e show False by simp
qed

lemma read_loop_terminates:
  "failbit s \<longrightarrow> eofbit s \<Longrightarrow> \<exists>r. read_loop s line t = Some r"
proof (cases "eofbit s")
  case True
  then show ?thesis by (simp add: read_loop_at_eof)
next
  case False
  assume "failbit s \<longrightarrow> eofbit s"
  with False have "good s" by (auto simp: good_def)
  from read_loop_good [OF this, of line t] show ?thesis by blast
qed

section \<open>Counting words\<close>

lemma map_of_count_word:
  "map_of (word_counters (count_word w t)) = increment_counter w (map_of (word_counters t))"
  by (auto simp: count_word_def map_index_def increment_counter_def map_of_map_assign
           split: option.splits)

lemma count_word_frame:
  "line_count (count_word w t) = line_count t"
  "fname (count_word w t) = fname t"
  "tid (count_word w t) = tid t"
  "start (count_word w t) = start t"
  by (simp_all add: count_word_def split: prod.splits)

lemma count_word_line_count_update:
  "count_word w (t\<lparr>line_count := n\<rparr>) = (count_word w t)\<lparr>line_count := n\<rparr>"
  by (simp add: count_word_def split: prod.splits)

lemma fold_count_word_line_count_update:
  "fold count_word ws (t\<lparr>line_count := n\<rparr>) = (fold count_word ws t)\<lparr>line_count := n\<rparr>"
  by (induction ws arbitrary: t) (simp_all add: count_word_line_count_update)

lemma fold_count_word_frame:
  "line_count (fold count_word ws t) = line_count t"
  "fname (fold count_word ws t) = fname t"
  "tid (fold count_word ws t) = tid t"
  "start (fold count_word ws t) = start t"
  by (induction ws arbitrary: t) (simp_all add: count_word_frame)

lemma map_of_fold_count_word:
  "map_of (word_counters (fold count_word ws t)) =
   fold increment_counter ws (map_of (word_counters t))"
  by (induction ws arbitrary: t) (simp_all add: map_of_count_word)

lemma process_line_eq:
  "process_line l t = (fold count_word (words_of l) t)\<lparr>line_count := line_count t + 1\<rparr>"
  by (simp add: process_line_def split_line_and_count_words_eq fold_count_word_line_count_update)

lemma fold_process_line:
  "fold process_line ls t =
   (fold count_word (concat (map words_of ls)) t)\<lparr>line_count := line_count t + of_nat (length ls)\<rparr>"
proof (induction ls arbitrary: t)
  case Nil
  show ?case by simp
next
  case (Cons l ls)
  have "fold process_line (l # ls) t = fold process_line ls (process_line l t)"
    by simp
  also have "\<dots> = (fold count_word (concat (map words_of ls)) (process_line l t))
      \<lparr>line_count := line_count (process_line l t) + of_nat (length ls)\<rparr>"
    by (rule Cons.IH)
  also have "\<dots> = (fold count_word (concat (map words_of (l # ls))) t)
      \<lparr>line_count := line_count t + of_nat (length (l # ls))\<rparr>"
    by (simp add: process_line_eq fold_count_word_line_count_update
          fold_count_word_frame add.assoc)
  finally show ?case .
qed

lemma words_total_Nil: "word_counters t = [] \<Longrightarrow> words_total t = 0"
  by (simp add: words_total_def)

lemma key_ordered_count_word:
  "key_ordered (word_counters t) \<Longrightarrow> key_ordered (word_counters (count_word w t))"
  by (auto simp: count_word_def map_index_def key_ordered_map_assign split: option.splits)

section \<open>Closed forms of the call\<close>

lemma map_erase_map_assign: "map_erase k (map_assign k v es) = map_erase k es"
  by (induction es) (auto simp: map_erase_def)

lemma Task_body_opened:
  assumes "fs path = Some content" and "fname (objs w this) = Some path"
  shows "\<exists>t. Task_body fs now self this w =
      Some (Inr (w\<lparr>objs := (objs w)(this := t),
                   out := out w @ [TaskFinished self (line_count t) (words_total t)]\<rparr>))
    \<and> t = fold process_line (lines_of content)
          ((objs w this)\<lparr>tid := self, line_count := 0, start := now\<rparr>)"
proof -
  let ?t0 = "(objs w this)\<lparr>tid := self, line_count := 0, start := now\<rparr>"
  let ?s = "\<lparr>buf = content, eofbit = False, failbit = False\<rparr>"
  have "good ?s" by (simp add: good_def)
  from read_loop_good [OF this, of "[]" ?t0]
  obtain s' line' where r: "read_loop ?s [] ?t0 = Some (s', line', fold process_line (lines_of content) ?t0)"
    by auto
  have tid: "tid (fold process_line (lines_of content) ?t0) = self"
    by (simp add: fold_process_line fold_count_word_frame)
  show ?thesis
    using assms r tid
    by (simp add: Task_body_def assign_tid_def ifstream_open_def Let_def)
qed

lemma Task_call_opened:
  assumes "fs path = Some content" and "fname (objs w this) = Some path"
  shows "\<exists>t. Task_call fs now self this w =
      Some (Inr (w\<lparr>tasks := map_erase self (tasks w),
                   objs := (objs w)(this := t),
                   out := out w @ [RegisterThread self,
                                   TaskFinished self (line_count t) (words_total t),
                                   UnregisterThread self]\<rparr>))
    \<and> t = fold process_line (lines_of content)
          ((objs w this)\<lparr>tid := self, line_count := 0, start := now\<rparr>)"
proof -
  let ?w1 = "w\<lparr>out := out w @ [RegisterThread self], tasks := map_assign self this (tasks w)\<rparr>"
  from assms have "fname (objs ?w1 this) = Some path" by simp
  from Task_body_opened [where w = ?w1 and fs = fs and now = now and self = self, OF assms(1) this]
  show ?thesis
    by (auto simp: Task_call_def TasksRegistry_ctor_def TasksRegistry_dtor_def map_erase_map_assign)
qed

lemma Task_call_not_opened:
  assumes "fs path = None" and "fname (objs w this) = Some path"
  shows "Task_call fs now self this w =
      Some (Inr (w\<lparr>tasks := map_erase self (tasks w),
                   objs := (objs w)(this := (objs w this)\<lparr>tid := self\<rparr>),
                   out := out w @ [RegisterThread self, CouldntOpenFile path self,
                                   UnregisterThread self]\<rparr>))"
  using assms
  by (simp add: Task_call_def Task_body_def TasksRegistry_ctor_def TasksRegistry_dtor_def
        assign_tid_def ifstream_open_def map_erase_map_assign)

section \<open>The walk over the snapshot\<close>

lemma cancel_walk_frame:
  "tasks (cancel_walk pc ts w) = tasks w \<and> objs (cancel_walk pc ts w) = objs w
   \<and> sig_num (cancel_walk pc ts w) = sig_num w \<and> running (cancel_walk pc ts w) = running w"
  by (induction ts arbitrary: w) (simp_all add: Let_def)

lemma cancel_walk_calls:
  "cancel_calls (cancel_walk pc ts w) =
   cancel_calls w @ map (\<lambda>q. (tid (objs w q), pc (tid (objs w q)))) ts"
  by (induction ts arbitrary: w) (simp_all add: Let_def)

lemma cancel_walk_out:
  "out (cancel_walk pc ts w) =
   out w @ concat (map (\<lambda>q. if pc (tid (objs w q)) = 0 then []
                             else [PerrorPthreadCancel, CancellingFailed (tid (objs w q))]) ts)"
  by (induction ts arbitrary: w) (simp_all add: Let_def cong: if_cong)

lemma cancel_running_tasks_calls:
  "cancel_calls (cancel_running_tasks pc w) =
   cancel_calls w @ map (\<lambda>q. (tid (objs w q), pc (tid (objs w q)))) (GetRunningTasks w)"
  by (simp add: cancel_running_tasks_def cancel_walk_calls)

section \<open>The call under cancellation\<close>

lemma read_loop_cancellable_returns:
  "read_loop_cancellable u n s line t = Some x \<Longrightarrow>
   (case x of Inl pt \<Rightarrow> u pt | Inr r \<Rightarrow> read_loop s line t = Some r \<and> eofbit (fst r))"
proof (induction rule: read_loop_cancellable.raw_induct [rotated 1, consumes 1])
  case (1 loop u n in_file line t x)
  show ?case
  proof (cases "eofbit in_file")
    case True
    with 1(2) show ?thesis by (auto simp: read_loop_at_eof)
  next
    case ne: False
    show ?thesis
    proof (cases "u (ReadLine n)")
      case True
      with 1(2) ne show ?thesis by auto
    next
      case False
      obtain s' l' where g: "getline in_file line (CHR 0x0A) = (s', l')"
        by (cases "getline in_file line (CHR 0x0A)")
      show ?thesis
      proof (cases "failbit s' \<or> l' = []")
        case True
        with 1(2) ne False g have "loop u (Suc n) s' l' t = Some x" by simp
        from 1(1) [OF this] ne g True show ?thesis
          by (subst read_loop.simps) (auto split: sum.splits)
      next
        case nt: False
        with 1(2) ne False g have "loop u (Suc n) s' l' (process_line l' t) = Some x" by simp
        from 1(1) [OF this] ne g nt show ?thesis
          by (subst read_loop.simps) (auto split: sum.splits)
      qed
    qed
  qed
qed

lemma read_loop_never_unwound:
  "read_loop s line t = Some r \<Longrightarrow> read_loop_cancellable never_unwinds n s line t = Some (Inr r)"
proof (induction arbitrary: n rule: read_loop.raw_induct [rotated 1, consumes 1])
  case (1 loop in_file line t r)
  have nu: "\<not> never_unwinds (ReadLine n)"
    by (simp add: never_unwinds_def)
  show ?case
  proof (cases "eofbit in_file")
    case True
    with 1(2) show ?thesis
      by (subst read_loop_cancellable.simps) simp
  next
    case ne: False
    obtain s' l' where g: "getline in_file line (CHR 0x0A) = (s', l')"
      by (cases "getline in_file line (CHR 0x0A)")
    show ?thesis
    proof (cases "failbit s' \<or> l' = []")
      case True
      with 1(2) ne g have "loop s' l' t = Some r" by simp
      from 1(1) [OF this, of "Suc n"] ne g True nu show ?thesis
        by (subst read_loop_cancellable.simps) simp
    next
      case nt: False
      with 1(2) ne g have "loop s' l' (process_line l' t) = Some r" by simp
      from 1(1) [OF this, of "Suc n"] ne g nt nu show ?thesis
        by (subst read_loop_cancellable.simps) simp
    qed
  qed
qed

lemma read_loop_cancellable_never:
  "read_loop_cancellable never_unwinds n s line t = map_option Inr (read_loop s line t)"
proof (cases "read_loop s line t")
  case (Some r)
  then show ?thesis by (simp add: read_loop_never_unwound)
next
  case None
  show ?thesis
  proof (cases "read_loop_cancellable never_unwinds n s line t")
    case None
    with \<open>read_loop s line t = None\<close> show ?thesis by simp
  next
    case (Some x)
    from read_loop_cancellable_returns [OF this] None show ?thesis
      by (cases x) (simp_all add: never_unwinds_def)
  qed
qed

lemma cancellable_call_returned:
  "cancellable_call u fs now self this w = Some (Returned w') \<Longrightarrow>
   Task_call fs now self this w = Some (Inr w')"
proof -
  assume a: "cancellable_call u fs now self this w = Some (Returned w')"
  let ?w1 = "assign_tid self this
    (w\<lparr>out := out w @ [RegisterThread self], tasks := map_assign self this (tasks w)\<rparr>)"
  from a obtain path where p: "fname (objs ?w1 this) = Some path"
    by (cases "fname (objs ?w1 this)")
       (auto simp: cancellable_call_def TasksRegistry_ctor_def Let_def split: if_splits)
  show ?thesis
  proof (cases "failbit (ifstream_open fs path)")
    case True
    with a p show ?thesis
      by (auto simp: cancellable_call_def Task_call_def Task_body_def TasksRegistry_ctor_def
            Let_def split: if_splits)
  next
    case False
    let ?t0 = "(objs ?w1 this)\<lparr>line_count := 0, start := now\<rparr>"
    from a p False obtain x where
      x: "read_loop_cancellable u 0 (ifstream_open fs path) [] ?t0 = Some x"
      by (cases "read_loop_cancellable u 0 (ifstream_open fs path) [] ?t0")
         (auto simp: cancellable_call_def TasksRegistry_ctor_def Let_def split: if_splits)
    from a p False x obtain r where r: "x = Inr r"
      by (cases x) (auto simp: cancellable_call_def TasksRegistry_ctor_def Let_def split: if_splits)
    from read_loop_cancellable_returns [OF x] r
    have "read_loop (ifstream_open fs path) [] ?t0 = Some r" by simp
    with a p False x r show ?thesis
      by (auto simp: cancellable_call_def Task_call_def Task_body_def TasksRegistry_ctor_def
            Let_def split: if_splits prod.splits)
  qed
qed

lemma cancellable_call_unwound:
  "cancellable_call u fs now self this w = Some (Unwound pt) \<Longrightarrow> u pt"
proof -
  assume a: "cancellable_call u fs now self this w = Some (Unwound pt)"
  let ?w1 = "assign_tid self this
    (w\<lparr>out := out w @ [RegisterThread self], tasks := map_assign self this (tasks w)\<rparr>)"
  show ?thesis
  proof (cases "u RegisterMessage")
    case True
    with a show ?thesis by (simp add: cancellable_call_def)
  next
    case nr: False
    with a obtain path where p: "fname (objs ?w1 this) = Some path"
      by (cases "fname (objs ?w1 this)")
         (auto simp: cancellable_call_def TasksRegistry_ctor_def Let_def split: if_splits)
    show ?thesis
    proof (cases "failbit (ifstream_open fs path)")
      case True
      with a p nr show ?thesis
        by (auto simp: cancellable_call_def TasksRegistry_ctor_def Let_def split: if_splits)
    next
      case False
      let ?t0 = "(objs ?w1 this)\<lparr>line_count := 0, start := now\<rparr>"
      show ?thesis
      proof (cases "u OpenFile")
        case True
        with a p nr show ?thesis
          by (auto simp: cancellable_call_def TasksRegistry_ctor_def Let_def split: if_splits)
      next
        case no: False
        with a p nr False obtain x where
          x: "read_loop_cancellable u 0 (ifstream_open fs path) [] ?t0 = Some x"
          by (cases "read_loop_cancellable u 0 (ifstream_open fs path) [] ?t0")
             (auto simp: cancellable_call_def TasksRegistry_ctor_def Let_def split: if_splits)
        from read_loop_cancellable_returns [OF x] a p nr no False x show ?thesis
          by (cases x)
             (auto simp: cancellable_call_def TasksRegistry_ctor_def Let_def
                split: if_splits prod.splits)
      qed
    qed
  qed
qed

lemma cancellable_call_never:
  "cancellable_call never_unwinds fs now self this w =
   map_option (case_sum Aborted Returned) (Task_call fs now self this w)"
  by (auto simp: cancellable_call_def Task_call_def Task_body_def TasksRegistry_ctor_def
        Let_def never_unwinds_def [abs_def] read_loop_cancellable_never [unfolded never_unwinds_def [abs_def]]
      split: option.splits sum.splits prod.splits)

lemma two_lines_unwound_in_loop:
  "read_loop_cancellable (request_arrives_before (ReadLine 0)) 0
     \<lparr>buf = two_lines, eofbit = False, failbit = False\<rparr> [] t = Some (Inl (ReadLine 0))"
  by (subst read_loop_cancellable.simps) (simp add: request_arrives_before_def)

lemma two_lines_unwound_in_call:
  "cancellable_call (request_arrives_before (ReadLine 0)) [''f'' \<mapsto> two_lines] 0 1 7 example_world
     = Some (Unwound (ReadLine 0))"
proof -
  have r: "\<not> request_arrives_before (ReadLine 0) RegisterMessage"
    "\<not> request_arrives_before (ReadLine 0) OpenFile"
    by (simp_all add: request_arrives_before_def)
  have f: "fname (objs (assign_tid 1 7 (example_world\<lparr>out := out example_world @ [RegisterThread 1],
      tasks := map_assign 1 7 (tasks example_world)\<rparr>)) 7) = Some ''f''"
    by (simp add: assign_tid_def example_world_def example_task_def Task_ctor_def)
  show ?thesis
    unfolding cancellable_call_def TasksRegistry_ctor_def Let_def
    by (simp add: r f ifstream_open_def two_lines_unwound_in_loop del: One_nat_def)
qed

lemma two_lines_never_unwound:
  "read_loop_cancellable never_unwinds 0 (stringstream two_lines) [] example_task =
     Some (Inr (\<lparr>buf = [], eofbit = True, failbit = True\<rparr>, [],
           example_task\<lparr>line_count := 7, word_counters := [(''a'', 1), (''b'', 1)]\<rparr>))"
  by code_simp

section \<open>Sequences of registry operations\<close>

lemma set_GetRunningTasks:
  "set (GetRunningTasks w) = {p. p \<noteq> NULL \<and> (\<exists>th. (th, p) \<in> set (tasks w))}"
  by (auto simp: GetRunningTasks_def image_iff)

lemma run_ops_entries:
  "key_ordered (tasks w) \<Longrightarrow> fst ` set (tasks w) \<subseteq> held \<Longrightarrow> scoped held ops \<Longrightarrow>
   \<exists>w'. run_ops ops w = Inr w' \<and> key_ordered (tasks w') \<and>
     (\<forall>p. (\<exists>th. (th, p) \<in> set (tasks w')) \<longleftrightarrow>
        (\<exists>th. (th, p) \<in> set (tasks w) \<and> Unregister th \<notin> set ops) \<or> registered ops p)"
proof (induction ops arbitrary: w held)
  case Nil
  then show ?case by simp
next
  case (Cons op ops)
  show ?case
  proof (cases op)
    case (Register th q)
    let ?w1 = "w\<lparr>out := out w @ [RegisterThread th], tasks := map_assign th q (tasks w)\<rparr>"
    from Cons.prems Register have fresh: "th \<notin> fst ` set (tasks w)" and sc: "scoped (insert th held) ops"
      by auto
    have ko: "key_ordered (tasks ?w1)"
      using Cons.prems(1) by (simp add: key_ordered_map_assign)
    have entries: "set (tasks ?w1) = insert (th, q) (set (tasks w))"
      using fresh Cons.prems(1) by (force simp: set_map_assign)
    then have sub: "fst ` set (tasks ?w1) \<subseteq> insert th held"
      using Cons.prems(2) by auto
    from Cons.IH [OF ko sub sc] obtain w' where
      w': "run_ops ops ?w1 = Inr w'" "key_ordered (tasks w')"
      "\<forall>p. (\<exists>th'. (th', p) \<in> set (tasks w')) \<longleftrightarrow>
        (\<exists>th'. (th', p) \<in> set (tasks ?w1) \<and> Unregister th' \<notin> set ops) \<or> registered ops p"
      by blast
    have "\<forall>p. (\<exists>th'. (th', p) \<in> set (tasks w')) \<longleftrightarrow>
        (\<exists>th'. (th', p) \<in> set (tasks w) \<and> Unregister th' \<notin> set (op # ops)) \<or> registered (op # ops) p"
    proof
      fix p
      from w'(3) have "(\<exists>th'. (th', p) \<in> set (tasks w')) \<longleftrightarrow>
        (\<exists>th'. (th', p) \<in> set (tasks ?w1) \<and> Unregister th' \<notin> set ops) \<or> registered ops p"
        by (rule spec)
      also have "\<dots> \<longleftrightarrow> (\<exists>th'. (th', p) \<in> set (tasks w) \<and> Unregister th' \<notin> set (op # ops))
          \<or> registered (op # ops) p"
        unfolding entries Register by auto
      finally show "(\<exists>th'. (th', p) \<in> set (tasks w')) \<longleftrightarrow>
        (\<exists>th'. (th', p) \<in> set (tasks w) \<and> Unregister th' \<notin> set (op # ops)) \<or> registered (op # ops) p" .
    qed
    with w'(1,2) Register show ?thesis
      by (simp add: TasksRegistry_ctor_def)
  next
    case (Unregister th)
    let ?w1 = "TasksRegistry_dtor th w"
    have ko: "key_ordered (tasks ?w1)"
      using Cons.prems(1) by (simp add: TasksRegistry_dtor_def key_ordered_map_erase)
    have entries: "set (tasks ?w1) = {e \<in> set (tasks w). fst e \<noteq> th}"
      by (simp add: TasksRegistry_dtor_def set_map_erase)
    then have sub: "fst ` set (tasks ?w1) \<subseteq> held - {th}"
      using Cons.prems(2) by auto
    from Cons.prems(3) Unregister have sc: "scoped (held - {th}) ops" by simp
    from Cons.IH [OF ko sub sc] obtain w' where
      w': "run_ops ops ?w1 = Inr w'" "key_ordered (tasks w')"
      "\<forall>p. (\<exists>th'. (th', p) \<in> set (tasks w')) \<longleftrightarrow>
        (\<exists>th'. (th', p) \<in> set (tasks ?w1) \<and> Unregister th' \<notin> set ops) \<or> registered ops p"
      by blast
    have "\<forall>p. (\<exists>th'. (th', p) \<in> set (tasks w')) \<longleftrightarrow>
        (\<exists>th'. (th', p) \<in> set (tasks w) \<and> Unregister th' \<notin> set (op # ops)) \<or> registered (op # ops) p"
    proof
      fix p
      from w'(3) have "(\<exists>th'. (th', p) \<in> set (tasks w')) \<longleftrightarrow>
        (\<exists>th'. (th', p) \<in> set (tasks ?w1) \<and> Unregister th' \<notin> set ops) \<or> registered ops p"
        by (rule spec)
      also have "\<dots> \<longleftrightarrow> (\<exists>th'. (th', p) \<in> set (tasks w) \<and> Unregister th' \<notin> set (op # ops))
          \<or> registered (op # ops) p"
        unfolding entries Unregister by auto
      finally show "(\<exists>th'. (th', p) \<in> set (tasks w')) \<longleftrightarrow>
        (\<exists>th'. (th', p) \<in> set (tasks w) \<and> Unregister th' \<notin> set (op # ops)) \<or> registered (op # ops) p" .
    qed
    with w'(1,2) Unregister show ?thesis
      by simp
  qed
qed

lemma run_ops_append:
  "run_ops (ops @ later) w =
   (case run_ops ops w of Inl e \<Rightarrow> Inl e | Inr w' \<Rightarrow> run_ops later w')"
proof (induction ops arbitrary: w)
  case Nil
  show ?case by simp
next
  case (Cons op ops)
  show ?case
    by (cases op) (simp_all add: Cons.IH TasksRegistry_ctor_def)
qed

lemma run_ops_returns: "\<exists>w'. run_ops ops w = Inr w'"
proof (induction ops arbitrary: w)
  case Nil
  show ?case by simp
next
  case (Cons op ops)
  show ?case
    by (cases op) (simp_all add: Cons.IH TasksRegistry_ctor_def)
qed

lemma snapshot_of_scoped_ops:
  "scoped {} ops \<Longrightarrow> run_ops ops (w\<lparr>tasks := []\<rparr>) = Inr w' \<Longrightarrow>
   set (GetRunningTasks w') = {p. p \<noteq> NULL \<and> registered ops p}"
proof -
  assume sc: "scoped {} ops" and r: "run_ops ops (w\<lparr>tasks := []\<rparr>) = Inr w'"
  have "key_ordered (tasks (w\<lparr>tasks := []\<rparr>))" "fst ` set (tasks (w\<lparr>tasks := []\<rparr>)) \<subseteq> {}"
    by (simp_all add: key_ordered_def)
  from run_ops_entries [OF this sc] r
  have "\<forall>p. (\<exists>th. (th, p) \<in> set (tasks w')) \<longleftrightarrow> registered ops p"
    by auto
  then show ?thesis
    by (simp add: set_GetRunningTasks)
qed

lemma Task_call_registry_ops:
  "Task_call fs now self this w = Some (Inr w') \<Longrightarrow>
   map_sum id tasks (run_ops [Register self this, Unregister self] w) = Inr (tasks w')"
  by (auto simp: Task_call_def Task_body_def TasksRegistry_ctor_def TasksRegistry_dtor_def
        assign_tid_def Let_def split: option.splits sum.splits if_splits prod.splits)

lemma Task_call_scoped: "self \<notin> held \<Longrightarrow> scoped held [Register self this, Unregister self]"
  by simp

section \<open>Claims about the registry\<close>

text \<open>
  C9.  Every element of the list returned by \<open>GetRunningTasks\<close> is a non-null
  pointer: the returned elements are exactly the values stored in the table with
  the null entries left out.
\<close>

theorem C9_snapshot_has_no_null:
  "NULL \<notin> set (GetRunningTasks w) \<and>
   set (GetRunningTasks w) = snd ` set (tasks w) - {NULL}"
  by (auto simp: GetRunningTasks_def)

text \<open>
  C3, as the specification states it: a second register from the same thread with
  no unregister in between fails fatally.  It does not hold: the constructor has
  no check, and the second call returns normally with the thread's entry replaced.
\<close>

theorem C3_counterexample:
  "TasksRegistry_ctor 1 7 example_world
     = Inr (example_world\<lparr>out := [RegisterThread 1], tasks := [(1, 7)]\<rparr>) \<and>
   \<not> isl (TasksRegistry_ctor 1 8 (example_world\<lparr>out := [RegisterThread 1], tasks := [(1, 7)]\<rparr>)) \<and>
   TasksRegistry_ctor 1 8 (example_world\<lparr>out := [RegisterThread 1], tasks := [(1, 7)]\<rparr>)
     = Inr (example_world\<lparr>out := [RegisterThread 1, RegisterThread 1], tasks := [(1, 8)]\<rparr>)"
  by (simp add: TasksRegistry_ctor_def example_world_def)

text \<open>
  C3, amended.  Register never fails.  Called a second time from the same thread
  with no unregister in between, it returns normally and the table maps the thread
  to the task of the second call; called after an unregister of that thread, it
  returns normally as well.
\<close>

theorem C3_register_never_fails:
  "(case TasksRegistry_ctor self p w of
      Inl e \<Rightarrow> False
    | Inr w1 \<Rightarrow>
        (case TasksRegistry_ctor self q w1 of
           Inl e \<Rightarrow> False
         | Inr w2 \<Rightarrow> map_of (tasks w2) self = Some q) \<and>
        (case TasksRegistry_ctor self q (TasksRegistry_dtor self w1) of
           Inl e \<Rightarrow> False
         | Inr w3 \<Rightarrow> map_of (tasks w3) self = Some q))"
  by (simp add: TasksRegistry_ctor_def map_of_map_assign)

text \<open>
  C4, as the specification states it: the snapshot contains exactly the tasks that
  are between their register and their unregister.  It does not hold for every use
  of the registry: when thread 1 registers task 7 and then task 8 without
  unregistering, task 7 has been registered and not unregistered, and the snapshot
  is \<open>[8]\<close>.
\<close>

theorem C4_counterexample:
  "map_sum id GetRunningTasks (run_ops [Register 1 7, Register 1 8] example_world) = Inr [8] \<and>
   registered [Register 1 7, Register 1 8] 7 \<and> 7 \<noteq> NULL \<and>
   tasks example_world = []"
  by (simp add: TasksRegistry_ctor_def example_world_def GetRunningTasks_def NULL_def)

text \<open>
  C4, amended with the condition that no thread registers while it holds an entry,
  which is how \<^verbatim>\<open>Task::operator()\<close> uses the registry (\<open>Task_call_registry_ops\<close>,
  \<open>Task_call_scoped\<close>).  The table starts empty; after any such sequence of
  register and unregister operations the list that \<open>GetRunningTasks\<close> returns holds
  exactly the non-null tasks that are between their register and the unregister of
  their thread.  The list is a copy: whatever operations follow, the list the
  caller holds still has exactly the tasks registered when it was taken, while a
  snapshot taken after them has the tasks registered then.
\<close>

theorem C4_snapshot_is_registered_tasks:
  "scoped {} ops \<Longrightarrow>
   \<exists>w'. run_ops ops (w\<lparr>tasks := []\<rparr>) = Inr w' \<and>
        set (GetRunningTasks w') = {p. p \<noteq> NULL \<and> registered ops p} \<and>
        (\<forall>later. \<exists>held_list w''.
           snapshot_then later w' = Inr (held_list, w'') \<and>
           set held_list = {p. p \<noteq> NULL \<and> registered ops p} \<and>
           (scoped {} (ops @ later) \<longrightarrow>
              set (GetRunningTasks w'') = {p. p \<noteq> NULL \<and> registered (ops @ later) p}))"
proof -
  assume sc: "scoped {} ops"
  from run_ops_returns obtain w' where w': "run_ops ops (w\<lparr>tasks := []\<rparr>) = Inr w'"
    by blast
  from snapshot_of_scoped_ops [OF sc w']
  have now: "set (GetRunningTasks w') = {p. p \<noteq> NULL \<and> registered ops p}" .
  have "\<exists>held_list w''.
           snapshot_then later w' = Inr (held_list, w'') \<and>
           set held_list = {p. p \<noteq> NULL \<and> registered ops p} \<and>
           (scoped {} (ops @ later) \<longrightarrow>
              set (GetRunningTasks w'') = {p. p \<noteq> NULL \<and> registered (ops @ later) p})"
    for later
  proof -
    from run_ops_returns obtain w'' where w'': "run_ops later w' = Inr w''"
      by blast
    then have all: "run_ops (ops @ later) (w\<lparr>tasks := []\<rparr>) = Inr w''"
      using w' by (simp add: run_ops_append)
    have "snapshot_then later w' = Inr (GetRunningTasks w', w'')"
      using w'' by (simp add: snapshot_then_def)
    moreover have "scoped {} (ops @ later) \<longrightarrow>
        set (GetRunningTasks w'') = {p. p \<noteq> NULL \<and> registered (ops @ later) p}"
      using snapshot_of_scoped_ops [OF _ all] by blast
    ultimately show ?thesis using now by blast
  qed
  with w' now show ?thesis by blast
qed

theorem C4_witness:
  "scoped {} [Register 1 7, Register 2 8] \<and>
   scoped {} ([Register 1 7, Register 2 8] @ [Unregister 1, Register 1 9]) \<and>
   (\<exists>w'. run_ops [Register 1 7, Register 2 8] (example_world\<lparr>tasks := []\<rparr>) = Inr w' \<and>
      set (GetRunningTasks w') = {7, 8} \<and>
      (\<exists>held_list w''.
         snapshot_then [Unregister 1, Register 1 9] w' = Inr (held_list, w'') \<and>
         set held_list = {7, 8} \<and>
         set (GetRunningTasks w'') = {8, 9}))"
proof -
  have sc: "scoped {} [Register 1 7, Register 2 8]"
    and sc2: "scoped {} ([Register 1 7, Register 2 8] @ [Unregister 1, Register 1 9])"
    by simp_all
  have r1: "{p. p \<noteq> NULL \<and> registered [Register 1 7, Register 2 8] p} = {7, 8}"
    by (auto simp: NULL_def)
  have r2: "{p. p \<noteq> NULL \<and>
      registered ([Register 1 7, Register 2 8] @ [Unregister 1, Register 1 9]) p} = {8, 9}"
    by (auto simp: NULL_def)
  from C4_snapshot_is_registered_tasks [OF sc, of example_world]
  obtain w' where w': "run_ops [Register 1 7, Register 2 8] (example_world\<lparr>tasks := []\<rparr>) = Inr w'"
    "set (GetRunningTasks w') = {7, 8}"
    and later: "\<And>later. \<exists>held_list w''.
           snapshot_then later w' = Inr (held_list, w'') \<and>
           set held_list = {7, 8} \<and>
           (scoped {} ([Register 1 7, Register 2 8] @ later) \<longrightarrow>
              set (GetRunningTasks w'') =
                {p. p \<noteq> NULL \<and> registered ([Register 1 7, Register 2 8] @ later) p})"
    unfolding r1 by blast
  from later [of "[Unregister 1, Register 1 9]"] sc2
  have "\<exists>held_list w''.
         snapshot_then [Unregister 1, Register 1 9] w' = Inr (held_list, w'') \<and>
         set held_list = {7, 8} \<and>
         set (GetRunningTasks w'') = {8, 9}"
    unfolding r2 by blast
  with sc sc2 w' show ?thesis by blast
qed

section \<open>Claims about the task\<close>

text \<open>
  C2, as the specification states it: a task whose file cannot be opened returns
  without having registered itself, and the registry never contains it.  It does
  not hold: \<^verbatim>\<open>registry_entry\<close> is constructed before the file is opened, so the
  snapshot taken in the state in which the open fails contains the task, and so
  does the snapshot taken after the failure was logged.
\<close>

theorem C2_counterexample:
  "TasksRegistry_ctor 1 7 example_world
     = Inr (example_world\<lparr>out := [RegisterThread 1], tasks := [(1, 7)]\<rparr>) \<and>
   GetRunningTasks (example_world\<lparr>out := [RegisterThread 1], tasks := [(1, 7)]\<rparr>) = [7] \<and>
   failbit (ifstream_open Map.empty ''f'') \<and>
   map_option (map_sum id out)
     (Task_body Map.empty 0 1 7 (example_world\<lparr>out := [RegisterThread 1], tasks := [(1, 7)]\<rparr>))
     = Some (Inr [RegisterThread 1, CouldntOpenFile ''f'' 1]) \<and>
   map_option (map_sum id GetRunningTasks)
     (Task_body Map.empty 0 1 7 (example_world\<lparr>out := [RegisterThread 1], tasks := [(1, 7)]\<rparr>))
     = Some (Inr [7])"
  by (simp add: TasksRegistry_ctor_def example_world_def example_task_def Task_ctor_def
        GetRunningTasks_def NULL_def ifstream_open_def Task_body_def assign_tid_def)

text \<open>
  C2, amended.  When the file cannot be opened the call logs the failure and
  returns normally without touching the counters.  The task registered itself on
  entry, before the open was attempted, so the registry contains it while the body
  runs; the entry is removed when the call returns, after which the table has no
  entry for the calling thread.
\<close>

theorem C2_open_failure:
  "fs path = None \<Longrightarrow> fname (objs w this) = Some path \<Longrightarrow> this \<noteq> NULL \<Longrightarrow>
   \<exists>w1 w2. TasksRegistry_ctor self this w = Inr w1 \<and>
     this \<in> set (GetRunningTasks w1) \<and>
     Task_body fs now self this w1 = Some (Inr w2) \<and>
     out w2 = out w @ [RegisterThread self, CouldntOpenFile path self] \<and>
     tasks w2 = tasks w1 \<and>
     word_counters (objs w2 this) = word_counters (objs w this) \<and>
     Task_call fs now self this w = Some (Inr (TasksRegistry_dtor self w2)) \<and>
     map_of (tasks (TasksRegistry_dtor self w2)) self = None"
  by (simp add: TasksRegistry_ctor_def Task_call_def Task_body_def assign_tid_def
        ifstream_open_def TasksRegistry_dtor_def map_of_map_erase set_GetRunningTasks)
     (blast intro: entry_map_assign)

theorem C2_witness:
  "Map.empty ''f'' = None \<and> fname (objs example_world 7) = Some ''f'' \<and> 7 \<noteq> NULL \<and>
   (\<exists>w1 w2. TasksRegistry_ctor 1 7 example_world = Inr w1 \<and>
     7 \<in> set (GetRunningTasks w1) \<and>
     Task_body Map.empty 0 1 7 w1 = Some (Inr w2) \<and>
     out w2 = [RegisterThread 1, CouldntOpenFile ''f'' 1] \<and>
     tasks w2 = tasks w1 \<and>
     word_counters (objs w2 7) = [] \<and>
     Task_call Map.empty 0 1 7 example_world = Some (Inr (TasksRegistry_dtor 1 w2)) \<and>
     map_of (tasks (TasksRegistry_dtor 1 w2)) 1 = None)"
proof -
  have h: "Map.empty ''f'' = None" "fname (objs example_world 7) = Some ''f''" "7 \<noteq> NULL"
    by (simp_all add: example_world_def example_task_def Task_ctor_def NULL_def)
  from C2_open_failure [of Map.empty "''f''" example_world 7 1 0, OF h] h show ?thesis
    by (simp add: example_world_def example_task_def Task_ctor_def)
qed

text \<open>
  C5, as the specification states it: the final counts equal those of a reference
  that tokenizes each non-empty line on whitespace.  It does not hold: the program
  cuts a line at space characters only and counts the empty string between two
  adjacent spaces as a word, so on the line \<open>a  b\<close> it has a counter for the empty
  word, which the reference has not, and on a line with a tab between \<open>a\<close> and \<open>b\<close>
  it counts one word where the reference counts \<open>a\<close> and \<open>b\<close>.
\<close>

theorem C5_counterexample:
  "task_after 7 (Task_call [''f'' \<mapsto> ''a  b''] 0 1 7 example_world) =
     Some \<lparr>fname = Some ''f'', tid = 1, start = 0, line_count = 1,
           word_counters = [([], 1), (''a'', 1), (''b'', 1)]\<rparr> \<and>
   reference_counts whitespace_tokens ''a  b'' [] = None \<and>
   task_after 7 (Task_call [''f'' \<mapsto> [CHR ''a'', CHR 0x09, CHR ''b'']] 0 1 7 example_world) =
     Some \<lparr>fname = Some ''f'', tid = 1, start = 0, line_count = 1,
           word_counters = [([CHR ''a'', CHR 0x09, CHR ''b''], 1)]\<rparr> \<and>
   reference_counts whitespace_tokens [CHR ''a'', CHR 0x09, CHR ''b''] ''a'' = Some 1"
proof (intro conjI)
  show "task_after 7 (Task_call [''f'' \<mapsto> ''a  b''] 0 1 7 example_world) =
     Some \<lparr>fname = Some ''f'', tid = 1, start = 0, line_count = 1,
           word_counters = [([], 1), (''a'', 1), (''b'', 1)]\<rparr>"
    by code_simp
  show "reference_counts whitespace_tokens ''a  b'' [] = None"
    by (simp add: reference_counts_def whitespace_tokens_def lines_of_def is_space_def
          increment_counter_def)
  show "task_after 7 (Task_call [''f'' \<mapsto> [CHR ''a'', CHR 0x09, CHR ''b'']] 0 1 7 example_world) =
     Some \<lparr>fname = Some ''f'', tid = 1, start = 0, line_count = 1,
           word_counters = [([CHR ''a'', CHR 0x09, CHR ''b''], 1)]\<rparr>"
    by code_simp
  show "reference_counts whitespace_tokens [CHR ''a'', CHR 0x09, CHR ''b''] ''a'' = Some 1"
    by (simp add: reference_counts_def whitespace_tokens_def lines_of_def is_space_def
          increment_counter_def)
qed

text \<open>
  C5, amended.  For a file that can be opened and a task constructed with no
  counters, the call returns normally and the final counts equal those of the
  reference that, for each non-empty line, cuts the line at every space character
  (\<open>words_of\<close>) and increments the 32-bit counter of each resulting word by one;
  the line count is the number of non-empty lines.
\<close>

theorem C5_counts_equal_reference:
  "fs path = Some content \<Longrightarrow> fname (objs w this) = Some path \<Longrightarrow>
   word_counters (objs w this) = [] \<Longrightarrow>
   \<exists>w'. Task_call fs now self this w = Some (Inr w') \<and>
     map_of (word_counters (objs w' this)) = reference_counts words_of content \<and>
     line_count (objs w' this) = of_nat (length (lines_of content))"
proof -
  assume a: "fs path = Some content" "fname (objs w this) = Some path"
    and c: "word_counters (objs w this) = []"
  let ?t0 = "(objs w this)\<lparr>tid := self, line_count := 0, start := now\<rparr>"
  let ?t = "fold process_line (lines_of content) ?t0"
  from Task_call_opened [where fs = fs and path = path and w = w and this = this
      and now = now and self = self, OF a] obtain w' where
    w': "Task_call fs now self this w = Some (Inr w')" "objs w' this = ?t"
    by auto
  have "map_of (word_counters ?t) = reference_counts words_of content"
    using c by (simp add: fold_process_line map_of_fold_count_word reference_counts_def)
  moreover have "line_count ?t = of_nat (length (lines_of content))"
    by (simp add: fold_process_line)
  ultimately show ?thesis using w' by simp
qed

theorem C5_witness:
  "[''f'' \<mapsto> ''a  b a''] ''f'' = Some ''a  b a'' \<and> fname (objs example_world 7) = Some ''f'' \<and>
   word_counters (objs example_world 7) = [] \<and>
   (\<exists>w'. Task_call [''f'' \<mapsto> ''a  b a''] 0 1 7 example_world = Some (Inr w') \<and>
     map_of (word_counters (objs w' 7)) = reference_counts words_of ''a  b a'' \<and>
     line_count (objs w' 7) = 1)"
proof -
  have h: "[''f'' \<mapsto> ''a  b a''] ''f'' = Some ''a  b a''" "fname (objs example_world 7) = Some ''f''"
    "word_counters (objs example_world 7) = []"
    by (simp_all add: example_world_def example_task_def Task_ctor_def)
  have l: "length (lines_of ''a  b a'') = 1"
    by (simp add: lines_of_def)
  from C5_counts_equal_reference [of "[''f'' \<mapsto> ''a  b a'']" "''f''" "''a  b a''" example_world 7 0 1, OF h]
    h show ?thesis
    unfolding l by simp
qed

text \<open>
  C8.  Run on an empty file, a task constructed with no counters completes
  normally: it reports a line count of 0 and a word total of 0, and its line count
  is 0 afterwards.
\<close>

theorem C8_empty_file:
  "fs path = Some [] \<Longrightarrow> fname (objs w this) = Some path \<Longrightarrow>
   word_counters (objs w this) = [] \<Longrightarrow>
   Task_call fs now self this w =
     Some (Inr (w\<lparr>tasks := map_erase self (tasks w),
                  objs := (objs w)(this := (objs w this)\<lparr>tid := self, line_count := 0, start := now\<rparr>),
                  out := out w @ [RegisterThread self, TaskFinished self 0 0, UnregisterThread self]\<rparr>))"
proof -
  assume a: "fs path = Some []" "fname (objs w this) = Some path"
    and c: "word_counters (objs w this) = []"
  from Task_call_opened [where fs = fs and path = path and w = w and this = this
      and now = now and self = self, OF a] c show ?thesis
    by (simp add: lines_of_Nil words_total_Nil)
qed

theorem C8_witness:
  "[''f'' \<mapsto> ''''] ''f'' = Some [] \<and> fname (objs example_world 7) = Some ''f'' \<and>
   word_counters (objs example_world 7) = [] \<and>
   Task_call [''f'' \<mapsto> ''''] 3 1 7 example_world =
     Some (Inr (example_world\<lparr>tasks := [],
                  objs := (objs example_world)(7 := example_task\<lparr>tid := 1, line_count := 0, start := 3\<rparr>),
                  out := [RegisterThread 1, TaskFinished 1 0 0, UnregisterThread 1]\<rparr>))"
proof -
  have h: "[''f'' \<mapsto> ''''] ''f'' = Some []" "fname (objs example_world 7) = Some ''f''"
    "word_counters (objs example_world 7) = []"
    by (simp_all add: example_world_def example_task_def Task_ctor_def)
  from C8_empty_file [of "[''f'' \<mapsto> '''']" "''f''" example_world 7 3 1, OF h] h show ?thesis
    by (simp add: example_world_def map_erase_def)
qed

text \<open>
  C10.  For every file that can be opened, whatever its (finite) contents, the
  line-reading loop returns, with \<^verbatim>\<open>eofbit\<close> set, and the call reaches its completion
  summary.  (The loop of the model can run forever, see \<open>read_loop_stuck\<close>; it
  does not on a stream that was opened.)
\<close>

theorem C10_read_loop_terminates:
  "fs path = Some content \<Longrightarrow> fname (objs w this) = Some path \<Longrightarrow>
   (\<exists>r. read_loop (ifstream_open fs path) line t = Some r \<and> eofbit (fst r)) \<and>
   (\<exists>w' n k. Task_call fs now self this w = Some (Inr w') \<and>
      out w' = out w @ [RegisterThread self, TaskFinished self n k, UnregisterThread self])"
proof -
  assume a: "fs path = Some content" "fname (objs w this) = Some path"
  have "failbit (ifstream_open fs path) \<longrightarrow> eofbit (ifstream_open fs path)"
    using a(1) by (simp add: ifstream_open_def)
  from read_loop_terminates [OF this, of line t] obtain r where
    r: "read_loop (ifstream_open fs path) line t = Some r" by blast
  from read_loop_exit [OF r] r have loop: "\<exists>r. read_loop (ifstream_open fs path) line t = Some r \<and> eofbit (fst r)"
    by blast
  from Task_call_opened [where fs = fs and path = path and w = w and this = this
      and now = now and self = self, OF a] obtain t' where
    "Task_call fs now self this w =
      Some (Inr (w\<lparr>tasks := map_erase self (tasks w), objs := (objs w)(this := t'),
                   out := out w @ [RegisterThread self,
                                   TaskFinished self (line_count t') (words_total t'),
                                   UnregisterThread self]\<rparr>))"
    by blast
  then have "\<exists>w' n k. Task_call fs now self this w = Some (Inr w') \<and>
      out w' = out w @ [RegisterThread self, TaskFinished self n k, UnregisterThread self]"
    by simp
  with loop show ?thesis by blast
qed

theorem C10_witness:
  "[''f'' \<mapsto> ''a b''] ''f'' = Some ''a b'' \<and> fname (objs example_world 7) = Some ''f'' \<and>
   (\<exists>r. read_loop (ifstream_open [''f'' \<mapsto> ''a b''] ''f'') [] example_task = Some r \<and> eofbit (fst r)) \<and>
   (\<exists>w' n k. Task_call [''f'' \<mapsto> ''a b''] 0 1 7 example_world = Some (Inr w') \<and>
      out w' = [RegisterThread 1, TaskFinished 1 n k, UnregisterThread 1])"
proof -
  have h: "[''f'' \<mapsto> ''a b''] ''f'' = Some ''a b''" "fname (objs example_world 7) = Some ''f''"
    by (simp_all add: example_world_def example_task_def Task_ctor_def)
  have o: "out example_world = []"
    by (simp add: example_world_def)
  from C10_read_loop_terminates [of "[''f'' \<mapsto> ''a b'']" "''f''" "''a b''" example_world 7 "[]" example_task 0 1, OF h]
    h show ?thesis
    unfolding o by simp
qed

section \<open>Claims about cancellation\<close>

text \<open>
  C1, as the specification states it: after each processed line the loop checks a
  cancellation checkpoint and, when cancellation was requested for the task's
  thread, the task stops and returns with its partial counts; it is never stopped
  from outside.  It does not hold.  With a request filed for thread 1 before the
  call, the thread is unwound at the first cancellation point, the message of the
  registry constructor: the call processes no line and does not return.  With a
  request that arrives once the file is open, the thread is unwound in the first
  \<^verbatim>\<open>std::getline\<close>, which reads from the file, again without returning.
\<close>

theorem C1_counterexample:
  "cancel_requested (example_world\<lparr>cancel_calls := [(1, 0)]\<rparr>) 1 \<and>
   cancellable_call (deferred (example_world\<lparr>cancel_calls := [(1, 0)]\<rparr>) 1)
       [''f'' \<mapsto> two_lines] 0 1 7 (example_world\<lparr>cancel_calls := [(1, 0)]\<rparr>)
     = Some (Unwound RegisterMessage) \<and>
   cancellable_call (request_arrives_before (ReadLine 0)) [''f'' \<mapsto> two_lines] 0 1 7 example_world
     = Some (Unwound (ReadLine 0))"
proof (intro conjI)
  show "cancel_requested (example_world\<lparr>cancel_calls := [(1, 0)]\<rparr>) 1"
    by (simp add: cancel_requested_def)
  show "cancellable_call (deferred (example_world\<lparr>cancel_calls := [(1, 0)]\<rparr>) 1)
       [''f'' \<mapsto> two_lines] 0 1 7 (example_world\<lparr>cancel_calls := [(1, 0)]\<rparr>)
     = Some (Unwound RegisterMessage)"
    by (simp add: cancellable_call_def deferred_def cancel_requested_def)
  show "cancellable_call (request_arrives_before (ReadLine 0)) [''f'' \<mapsto> two_lines] 0 1 7 example_world
     = Some (Unwound (ReadLine 0))"
    by (rule two_lines_unwound_in_call)
qed

text \<open>
  C1, amended.  Cancellation is not cooperative: the task has no checkpoint of its
  own.  A cancellation request is a call of \<^verbatim>\<open>pthread_cancel\<close> by the signal-handling
  thread on the thread id of each task of the snapshot.  The call of the task, and
  its line-reading loop, stop early only where the threads library unwinds the
  thread, at one of its cancellation points, and then they do not return; a call
  that returns is the call that runs with no cancellation at all, and a loop that
  returns has reached the end of its input.
\<close>

theorem C1_stopped_only_by_unwinding:
  "(cancellable_call unwinds fs now self this w = Some (Returned w') \<longrightarrow>
      Task_call fs now self this w = Some (Inr w')) \<and>
   (cancellable_call unwinds fs now self this w = Some (Unwound pt) \<longrightarrow> unwinds pt) \<and>
   (read_loop_cancellable unwinds n s line t = Some (Inr r) \<longrightarrow>
      read_loop s line t = Some r \<and> eofbit (fst r)) \<and>
   (read_loop_cancellable unwinds n s line t = Some (Inl pt') \<longrightarrow> unwinds pt') \<and>
   cancel_calls (cancel_running_tasks pc v) =
     cancel_calls v @ map (\<lambda>q. (tid (objs v q), pc (tid (objs v q)))) (GetRunningTasks v)"
proof (intro conjI impI)
  assume "cancellable_call unwinds fs now self this w = Some (Returned w')"
  then show "Task_call fs now self this w = Some (Inr w')"
    by (rule cancellable_call_returned)
next
  assume "cancellable_call unwinds fs now self this w = Some (Unwound pt)"
  then show "unwinds pt"
    by (rule cancellable_call_unwound)
next
  assume a: "read_loop_cancellable unwinds n s line t = Some (Inr r)"
  from read_loop_cancellable_returns [OF a]
  show "read_loop s line t = Some r" and "eofbit (fst r)" by simp_all
next
  assume a: "read_loop_cancellable unwinds n s line t = Some (Inl pt')"
  from read_loop_cancellable_returns [OF a] show "unwinds pt'" by simp
next
  show "cancel_calls (cancel_running_tasks pc v) =
     cancel_calls v @ map (\<lambda>q. (tid (objs v q), pc (tid (objs v q)))) (GetRunningTasks v)"
    by (rule cancel_running_tasks_calls)
qed

theorem C1_witness:
  "(\<exists>w'. cancellable_call never_unwinds [''f'' \<mapsto> two_lines] 0 1 7 example_world = Some (Returned w') \<and>
         Task_call [''f'' \<mapsto> two_lines] 0 1 7 example_world = Some (Inr w')) \<and>
   cancellable_call (request_arrives_before (ReadLine 0)) [''f'' \<mapsto> two_lines] 0 1 7 example_world
     = Some (Unwound (ReadLine 0)) \<and>
   request_arrives_before (ReadLine 0) (ReadLine 0) \<and>
   read_loop_cancellable never_unwinds 0 (stringstream two_lines) [] example_task =
     Some (Inr (\<lparr>buf = [], eofbit = True, failbit = True\<rparr>, [],
           example_task\<lparr>line_count := 7, word_counters := [(''a'', 1), (''b'', 1)]\<rparr>)) \<and>
   read_loop (stringstream two_lines) [] example_task =
     Some (\<lparr>buf = [], eofbit = True, failbit = True\<rparr>, [],
           example_task\<lparr>line_count := 7, word_counters := [(''a'', 1), (''b'', 1)]\<rparr>) \<and>
   cancel_calls (cancel_running_tasks always_delivered three_running) = [(1, 0), (2, 0), (3, 0)]"
proof -
  have h: "[''f'' \<mapsto> two_lines] ''f'' = Some two_lines" "fname (objs example_world 7) = Some ''f''"
    by (simp_all add: example_world_def example_task_def Task_ctor_def)
  from Task_call_opened [where fs = "[''f'' \<mapsto> two_lines]" and path = "''f''"
      and w = example_world and this = 7 and now = 0 and self = 1, OF h]
  obtain w' where tc: "Task_call [''f'' \<mapsto> two_lines] 0 1 7 example_world = Some (Inr w')"
    by blast
  then have ret: "cancellable_call never_unwinds [''f'' \<mapsto> two_lines] 0 1 7 example_world
      = Some (Returned w')"
    by (simp add: cancellable_call_never)
  note c1 = C1_stopped_only_by_unwinding [where unwinds = never_unwinds
      and fs = "[''f'' \<mapsto> two_lines]" and now = 0 and self = 1 and this = 7
      and w = example_world and w' = w' and n = 0 and s = "stringstream two_lines"
      and line = "[]" and t = example_task and pc = always_delivered and v = three_running]
  note c2 = C1_stopped_only_by_unwinding [where unwinds = "request_arrives_before (ReadLine 0)"
      and fs = "[''f'' \<mapsto> two_lines]" and now = 0 and self = 1 and this = 7
      and w = example_world and pt = "ReadLine 0"]
  have uw: "cancellable_call (request_arrives_before (ReadLine 0)) [''f'' \<mapsto> two_lines] 0 1 7 example_world
     = Some (Unwound (ReadLine 0))"
    by (rule two_lines_unwound_in_call)
  from c1 [THEN conjunct1, rule_format, OF ret] ret
  have a: "\<exists>w'. cancellable_call never_unwinds [''f'' \<mapsto> two_lines] 0 1 7 example_world = Some (Returned w') \<and>
         Task_call [''f'' \<mapsto> two_lines] 0 1 7 example_world = Some (Inr w')"
    by blast
  from c2 [THEN conjunct2, THEN conjunct1, rule_format, OF uw]
  have b: "request_arrives_before (ReadLine 0) (ReadLine 0)" .
  from c1 [THEN conjunct2, THEN conjunct2, THEN conjunct1, rule_format, OF two_lines_never_unwound]
  have c: "read_loop (stringstream two_lines) [] example_task =
     Some (\<lparr>buf = [], eofbit = True, failbit = True\<rparr>, [],
           example_task\<lparr>line_count := 7, word_counters := [(''a'', 1), (''b'', 1)]\<rparr>)"
    by simp
  have d: "cancel_calls (cancel_running_tasks always_delivered three_running)
      = [(1, 0), (2, 0), (3, 0)]"
    using c1 [THEN conjunct2, THEN conjunct2, THEN conjunct2, THEN conjunct2]
    by (simp add: three_running_def example_world_def GetRunningTasks_def NULL_def
          always_delivered_def)
  from a uw b two_lines_never_unwound c d show ?thesis by blast
qed

text \<open>
  C6.  Walking the snapshot, the signal-handling thread calls \<^verbatim>\<open>pthread_cancel\<close> once
  for every task of the snapshot, in order, whatever the calls return; each call
  that fails is logged, and the walk goes on with the next task.
\<close>

theorem C6_failure_does_not_stop_the_walk:
  "cancel_calls (cancel_running_tasks pc w) =
     cancel_calls w @ map (\<lambda>q. (tid (objs w q), pc (tid (objs w q)))) (GetRunningTasks w) \<and>
   out (cancel_running_tasks pc w) =
     out w @ CancelRunningTasks #
       concat (map (\<lambda>q. if pc (tid (objs w q)) = 0 then []
                         else [PerrorPthreadCancel, CancellingFailed (tid (objs w q))])
                   (GetRunningTasks w))"
  by (simp add: cancel_running_tasks_def cancel_walk_calls cancel_walk_out cong: if_cong)

theorem C6_witness:
  "cancel_calls (cancel_running_tasks (fails_for 2) three_running) = [(1, 0), (2, 3), (3, 0)] \<and>
   out (cancel_running_tasks (fails_for 2) three_running) =
     [CancelRunningTasks, PerrorPthreadCancel, CancellingFailed 2]"
  using C6_failure_does_not_stop_the_walk [where pc = "fails_for 2" and w = three_running]
  by (simp add: three_running_def example_world_def GetRunningTasks_def NULL_def fails_for_def)

text \<open>
  C7, as the specification states it: requesting cancellation of a task that has
  unregistered has no effect on any task.  It does not hold: the request goes to
  the thread id stored in the task object.  The snapshot \<open>[7]\<close> is taken while
  thread 1 runs task 7; task 7 returns and thread 1 goes on to run task 8; the
  walk over the snapshot then requests cancellation of thread 1, on which the
  registered task 8 is running.
\<close>

theorem C7_counterexample:
  "GetRunningTasks (assign_tid 1 7 (projr (TasksRegistry_ctor 1 7 example_world))) = [7] \<and>
   out pool_thread_reused =
     [RegisterThread 1, TaskFinished 1 2 2, UnregisterThread 1, RegisterThread 1] \<and>
   GetRunningTasks pool_thread_reused = [8] \<and>
   tid (objs pool_thread_reused 7) = 1 \<and>
   tid (objs pool_thread_reused 8) = 1 \<and>
   \<not> cancel_requested pool_thread_reused 1 \<and>
   cancel_requested (cancel_walk always_delivered [7] pool_thread_reused) 1"
  by code_simp

text \<open>
  C7, amended.  Requesting cancellation of tasks, registered or not, always
  returns and changes neither the registry nor any task object; a thread has a
  cancellation request afterwards exactly if it had one before or is the thread
  id stored in one of the tasks walked and \<^verbatim>\<open>pthread_cancel\<close> returned 0 for it.
\<close>

theorem C7_cancel_after_unregister:
  "tasks (cancel_walk pc ts w) = tasks w \<and>
   objs (cancel_walk pc ts w) = objs w \<and>
   (cancel_requested (cancel_walk pc ts w) th \<longleftrightarrow>
      cancel_requested w th \<or> (pc th = 0 \<and> th \<in> (\<lambda>q. tid (objs w q)) ` set ts))"
  by (auto simp: cancel_walk_frame cancel_walk_calls cancel_requested_def)

end
